theory Spec2Isabelle
  imports Main "HOL-Library.Word"
begin

unbundle bit_operations_syntax

section \<open>JavaScript primitives used by the sources\<close>

text \<open>
  Strings are lists of code units (\<open>string\<close>); \<open>charCodeAt\<close> reads one unit as a number.
  JavaScript numbers that hold integers are modelled as \<open>int\<close>; the 32-bit conversions
  that the bitwise operators perform are written out with \<open>toInt32\<close>. A number that can be
  \<open>NaN\<close> is an \<open>option\<close>, with \<open>None\<close> for \<open>NaN\<close>.
\<close>

definition charCodeAt :: "char \<Rightarrow> int" where
  "charCodeAt c = int (of_char c)"

definition toInt32 :: "int \<Rightarrow> int" where
  "toInt32 x = (x + 2147483648) mod 4294967296 - 2147483648"

definition shl5 :: "int \<Rightarrow> int" where
  \<comment> \<open>\<open>x << 5\<close>\<close>
  "shl5 x = toInt32 (toInt32 x * 32)"

definition imul :: "int \<Rightarrow> int \<Rightarrow> int" where
  \<comment> \<open>\<open>Math.imul(a, b)\<close>\<close>
  "imul a b = toInt32 (toInt32 a * toInt32 b)"

definition js_rem :: "int \<Rightarrow> nat \<Rightarrow> int option" where
  \<comment> \<open>\<open>a % m\<close> for a non-negative integer \<open>m\<close>: the sign of the dividend, \<open>NaN\<close> when \<open>m\<close> is 0\<close>
  "js_rem a m = (if m = 0 then None else Some (sgn a * (\<bar>a\<bar> mod int m)))"

definition js_abs :: "int option \<Rightarrow> nat option" where
  \<comment> \<open>\<open>Math.abs\<close> of a value that is an integer or \<open>NaN\<close>\<close>
  "js_abs r = map_option (\<lambda>v. nat \<bar>v\<bar>) r"

section \<open>Bloom filter over a byte array (\<open>Uint8Array\<close>)\<close>

text \<open>
  The constructor computes \<open>size\<close> and \<open>numHashFunctions\<close> with floating-point logarithms;
  the model takes the two computed values as given. \<open>numHashFunctions\<close> is
  \<open>ceil((size / expectedElements) * ln 2)\<close>: it is positive only when \<open>size\<close> is, and it is
  \<open>NaN\<close> (\<open>None\<close>) when \<open>expectedElements\<close> is 0. A loop \<open>for (i = 0; i < k; i++)\<close> runs
  \<open>loopCount k\<close> times: not at all when \<open>k\<close> is \<open>NaN\<close>. The seeds \<open>i * 0x9e3779b9\<close> are
  exact integers for every count below two million. All fields but the contents of
  \<open>bitArray\<close> are read-only after construction.
\<close>

definition loopCount :: "nat option \<Rightarrow> nat" where
  "loopCount k = (case k of None \<Rightarrow> 0 | Some n \<Rightarrow> n)"

definition strictNotEqual :: "nat option \<Rightarrow> nat option \<Rightarrow> bool" where
  \<comment> \<open>\<open>a !== b\<close> on numbers: \<open>NaN\<close> differs from every number and from itself\<close>
  "strictNotEqual a b \<longleftrightarrow> a = None \<or> b = None \<or> a \<noteq> b"

record BloomFilter =
  bitArray :: "8 word list"
  hashSeeds :: "int list"
  size_m :: nat
  numHashFunctions :: "nat option"
  byteSize :: nat

definition generateHashSeeds :: "nat option \<Rightarrow> int list" where
  "generateHashSeeds k = map (\<lambda>i. int i * 2654435769) [0..<loopCount k]"

definition BloomFilter_new :: "nat \<Rightarrow> nat option \<Rightarrow> BloomFilter" where
  \<comment> \<open>the constructor, from the computed \<open>size\<close> and \<open>numHashFunctions\<close>\<close>
  "BloomFilter_new m k =
     \<lparr> bitArray = replicate ((m + 7) div 8) 0,
       hashSeeds = generateHashSeeds k,
       size_m = m,
       numHashFunctions = k,
       byteSize = (m + 7) div 8 \<rparr>"

fun hash_loop :: "int \<times> int \<Rightarrow> string \<Rightarrow> int \<times> int" where
  "hash_loop (hash1, hash2) [] = (hash1, hash2)"
| "hash_loop (hash1, hash2) (c # cs) =
     (let ch = charCodeAt c;
          h1 = imul (toInt32 (toInt32 hash1 XOR ch)) 16777619;
          h2 = toInt32 (shl5 hash2 - hash2 + ch)
      in hash_loop (h1, h2) cs)"

definition BloomFilter_hash :: "BloomFilter \<Rightarrow> string \<Rightarrow> int \<Rightarrow> nat option" where
  "BloomFilter_hash bf str seed =
     (case hash_loop (2166136261, seed) str of
        (hash1, hash2) \<Rightarrow> js_abs (js_rem (hash1 + hash2) (size_m bf)))"

definition setBit :: "8 word list \<Rightarrow> nat option \<Rightarrow> 8 word list" where
  \<comment> \<open>\<open>bitArray[byteIndex] |= 1 << bitPosition\<close>; a typed array ignores a write at an
      index that is \<open>NaN\<close> or out of range\<close>
  "setBit bits bitIndex =
     (case bitIndex of
        None \<Rightarrow> bits
      | Some b \<Rightarrow>
          (let byteIndex = b div 8; bitPosition = b mod 8
           in if byteIndex < length bits
              then bits[byteIndex := (bits ! byteIndex) OR push_bit bitPosition 1]
              else bits))"

definition testBit :: "8 word list \<Rightarrow> nat option \<Rightarrow> bool" where
  \<comment> \<open>\<open>(bitArray[byteIndex] & (1 << bitPosition)) !== 0\<close>; a typed array reads
      \<open>undefined\<close> at an index that is \<open>NaN\<close> or out of range, and \<open>undefined & x\<close> is 0\<close>
  "testBit bits bitIndex =
     (case bitIndex of
        None \<Rightarrow> False
      | Some b \<Rightarrow>
          (let byteIndex = b div 8; bitPosition = b mod 8
           in byteIndex < length bits \<and> (bits ! byteIndex) AND push_bit bitPosition 1 \<noteq> 0))"

definition seedsUsed :: "BloomFilter \<Rightarrow> int list" where
  \<comment> \<open>\<open>hashSeeds[i]\<close> for \<open>i\<close> from 0 below \<open>numHashFunctions\<close>; the constructor stores
      that many seeds\<close>
  "seedsUsed bf = map (\<lambda>i. hashSeeds bf ! i) [0..<loopCount (numHashFunctions bf)]"

definition BloomFilter_add :: "BloomFilter \<Rightarrow> string \<Rightarrow> BloomFilter" where
  "BloomFilter_add bf item =
     bf\<lparr>bitArray := foldl (\<lambda>bits seed. setBit bits (BloomFilter_hash bf item seed))
                           (bitArray bf) (seedsUsed bf)\<rparr>"

definition BloomFilter_contains :: "BloomFilter \<Rightarrow> string \<Rightarrow> bool" where
  "BloomFilter_contains bf item =
     list_all (\<lambda>seed. testBit (bitArray bf) (BloomFilter_hash bf item seed)) (seedsUsed bf)"

definition BloomFilter_clear :: "BloomFilter \<Rightarrow> BloomFilter" where
  "BloomFilter_clear bf = bf\<lparr>bitArray := map (\<lambda>_. 0) (bitArray bf)\<rparr>"

datatype js_error = Error string

definition orByte :: "BloomFilter \<Rightarrow> 8 word list \<Rightarrow> nat \<Rightarrow> 8 word list" where
  \<comment> \<open>\<open>this.bitArray[i] |= other.bitArray[i]\<close>\<close>
  "orByte other bits i =
     (if i < length bits
      then bits[i := (bits ! i) OR (if i < length (bitArray other) then bitArray other ! i else 0)]
      else bits)"

definition BloomFilter_merge :: "BloomFilter \<Rightarrow> BloomFilter \<Rightarrow> js_error + BloomFilter" where
  "BloomFilter_merge bf other =
     (if size_m bf \<noteq> size_m other
         \<or> strictNotEqual (numHashFunctions bf) (numHashFunctions other)
      then Inl (Error ''Cannot merge bloom filters with different parameters'')
      else Inr (bf\<lparr>bitArray := foldl (orByte other) (bitArray bf) [0..<byteSize bf]\<rparr>))"

definition BloomFilter_inv :: "BloomFilter \<Rightarrow> bool" where
  \<comment> \<open>what the constructor establishes and every method keeps\<close>
  "BloomFilter_inv bf \<longleftrightarrow>
     byteSize bf = (size_m bf + 7) div 8 \<and>
     length (bitArray bf) = byteSize bf \<and>
     hashSeeds bf = generateHashSeeds (numHashFunctions bf) \<and>
     (0 < loopCount (numHashFunctions bf) \<longrightarrow> 0 < size_m bf)"

section \<open>Bloom filter over a boolean array\<close>

text \<open>
  The second implementation keeps a \<open>boolean[]\<close>. An ordinary array accepts a write at
  any key: beyond the end it grows (the holes read as \<open>undefined\<close>), and at the key
  \<open>NaN\<close> it stores an ordinary property, kept here in \<open>nanSlot_b\<close>.
\<close>

record BloomFilterBasic =
  bitArray_b :: "bool list"
  nanSlot_b :: bool
  size_b :: nat
  numHashFunctions_b :: "nat option"

definition BloomFilterBasic_new :: "nat \<Rightarrow> nat option \<Rightarrow> BloomFilterBasic" where
  "BloomFilterBasic_new m k =
     \<lparr> bitArray_b = replicate m False, nanSlot_b = False, size_b = m, numHashFunctions_b = k \<rparr>"

fun hashFunction_loop :: "nat \<Rightarrow> int \<Rightarrow> int option \<Rightarrow> string \<Rightarrow> int option" where
  "hashFunction_loop m i h [] = h"
| "hashFunction_loop m i h (c # cs) =
     hashFunction_loop m i
       (case h of None \<Rightarrow> None
        | Some v \<Rightarrow> js_rem (shl5 v + v + charCodeAt c + i) m) cs"

definition hashFunction :: "BloomFilterBasic \<Rightarrow> nat \<Rightarrow> string \<Rightarrow> nat option" where
  \<comment> \<open>the \<open>i\<close>-th closure built by \<open>generateHashFunctions\<close>\<close>
  "hashFunction bf i str = js_abs (hashFunction_loop (size_b bf) (int i) (Some 0) str)"

definition writeTrue :: "BloomFilterBasic \<Rightarrow> nat option \<Rightarrow> BloomFilterBasic" where
  \<comment> \<open>\<open>this.bitArray[index] = true\<close>\<close>
  "writeTrue bf index =
     (case index of
        None \<Rightarrow> bf\<lparr>nanSlot_b := True\<rparr>
      | Some n \<Rightarrow>
          if n < length (bitArray_b bf)
          then bf\<lparr>bitArray_b := (bitArray_b bf)[n := True]\<rparr>
          else bf\<lparr>bitArray_b := bitArray_b bf @ replicate (n - length (bitArray_b bf)) False @ [True]\<rparr>)"

definition readBit :: "BloomFilterBasic \<Rightarrow> nat option \<Rightarrow> bool" where
  \<comment> \<open>the truth value of \<open>this.bitArray[index]\<close>\<close>
  "readBit bf index =
     (case index of
        None \<Rightarrow> nanSlot_b bf
      | Some n \<Rightarrow> n < length (bitArray_b bf) \<and> bitArray_b bf ! n)"

definition BloomFilterBasic_add :: "BloomFilterBasic \<Rightarrow> string \<Rightarrow> BloomFilterBasic" where
  "BloomFilterBasic_add bf item =
     foldl (\<lambda>b i. writeTrue b (hashFunction bf i item)) bf [0..<loopCount (numHashFunctions_b bf)]"

definition BloomFilterBasic_contains :: "BloomFilterBasic \<Rightarrow> string \<Rightarrow> bool" where
  "BloomFilterBasic_contains bf item =
     list_all (\<lambda>i. readBit bf (hashFunction bf i item)) [0..<loopCount (numHashFunctions_b bf)]"

definition BloomFilterBasic_clear :: "BloomFilterBasic \<Rightarrow> BloomFilterBasic" where
  \<comment> \<open>\<open>fill(false)\<close> rewrites the indexed elements only\<close>
  "BloomFilterBasic_clear bf = bf\<lparr>bitArray_b := map (\<lambda>_. False) (bitArray_b bf)\<rparr>"


section \<open>String operations\<close>

fun split_on :: "char \<Rightarrow> string \<Rightarrow> string list" where
  \<comment> \<open>\<open>s.split(sep)\<close> for a one-character separator: never empty, \<open>"".split(".")\<close> is \<open>[""]\<close>\<close>
  "split_on sep [] = [[]]"
| "split_on sep (c # cs) =
     (if c = sep then [] # split_on sep cs
      else (case split_on sep cs of
              [] \<Rightarrow> [[c]]
            | p # ps \<Rightarrow> (c # p) # ps))"

definition indexOf_from :: "string \<Rightarrow> char \<Rightarrow> nat \<Rightarrow> int" where
  \<comment> \<open>\<open>s.indexOf(c, from)\<close> for \<open>from \<ge> 0\<close>: the first position at or after \<open>from\<close>, or -1\<close>
  "indexOf_from s c from =
     (case filter (\<lambda>i. s ! i = c) [from..<length s] of
        [] \<Rightarrow> -1
      | i # _ \<Rightarrow> int i)"

definition lastIndexOf_from :: "string \<Rightarrow> char \<Rightarrow> int \<Rightarrow> int" where
  \<comment> \<open>\<open>s.lastIndexOf(c, pos)\<close>: the search starts at \<open>min(max(pos, 0), length - 1)\<close> and
      runs down to 0, so a negative \<open>pos\<close> still looks at position 0\<close>
  "lastIndexOf_from s c pos =
     (let start = min (max pos 0) (int (length s) - 1)
      in case filter (\<lambda>i. s ! i = c) (rev [0..<nat (start + 1)]) of
           [] \<Rightarrow> -1
         | i # _ \<Rightarrow> int i)"

definition lastIndexOf :: "string \<Rightarrow> char \<Rightarrow> int" where
  \<comment> \<open>\<open>s.lastIndexOf(c)\<close>: the position argument defaults to \<open>+\<infinity>\<close>\<close>
  "lastIndexOf s c = lastIndexOf_from s c (int (length s))"

definition slice :: "string \<Rightarrow> int \<Rightarrow> int \<Rightarrow> string" where
  \<comment> \<open>\<open>s.slice(start, end)\<close>: a negative index counts from the end, both are clamped to the
      string, and the result is empty when \<open>end\<close> is not after \<open>start\<close>\<close>
  "slice s start end =
     (let len = int (length s);
          from = (if start < 0 then max (len + start) 0 else min start len);
          to = (if end < 0 then max (len + end) 0 else min end len)
      in take (nat (to - from)) (drop (nat from) s))"

definition slice_from :: "string \<Rightarrow> int \<Rightarrow> string" where
  \<comment> \<open>\<open>s.slice(start)\<close>\<close>
  "slice_from s start = slice s start (int (length s))"

section \<open>Trie index\<close>

text \<open>
  A node owns a \<open>Map\<close> from label to child, kept here as an association list in insertion
  order. \<open>metadata\<close> is never written by the index and is left out. The index object holds
  nothing but its root, so the operations take and return the root node; a child that the
  source mutates in place is rebuilt along the path. A node taken from the node pool is
  reset before use, so it is the same value as a new node.
\<close>

datatype TrieNode = TrieNode (children: "(string \<times> TrieNode) list") (isEndOfDomain: bool) (source: string)

definition newTrieNode :: TrieNode where
  "newTrieNode = TrieNode [] False ''''"

fun Map_set :: "'k \<Rightarrow> 'v \<Rightarrow> ('k \<times> 'v) list \<Rightarrow> ('k \<times> 'v) list" where
  \<comment> \<open>\<open>Map.set\<close>: an existing key keeps its place, a new key goes last\<close>
  "Map_set k v [] = [(k, v)]"
| "Map_set k v (p # ps) = (if fst p = k then (k, v) # ps else p # Map_set k v ps)"

fun insert_walk :: "string list \<Rightarrow> string \<Rightarrow> TrieNode \<Rightarrow> TrieNode" where
  "insert_walk [] src (TrieNode cs e s) = TrieNode cs True src"
| "insert_walk (part # parts) src (TrieNode cs e s) =
     (let childNode = (case map_of cs part of None \<Rightarrow> newTrieNode | Some c \<Rightarrow> c)
      in TrieNode (Map_set part (insert_walk parts src childNode) cs) e s)"

datatype MatchType = Exact | Subdomain | Pattern | NoMatch

record SearchResult =
  found :: bool
  matchType :: MatchType
  confidence :: nat
  source_r :: string

fun search_walk :: "string list \<Rightarrow> TrieNode \<Rightarrow> bool \<times> bool \<times> string \<Rightarrow> bool \<times> bool \<times> string" where
  \<comment> \<open>the loop of \<open>search\<close>; the state is \<open>(exactMatch, subdomainMatch, matchSource)\<close>, and
      \<open>i === parts.length - 1\<close> holds when no part is left after this one\<close>
  "search_walk [] currentNode st = st"
| "search_walk (part # parts) currentNode (exactMatch, subdomainMatch, matchSource) =
     (case map_of (children currentNode) part of
        None \<Rightarrow> (exactMatch, subdomainMatch, matchSource)
      | Some childNode \<Rightarrow>
          search_walk parts childNode
            (if isEndOfDomain childNode
             then (if parts = [] then (True, subdomainMatch, source childNode)
                   else (exactMatch, True, source childNode))
             else (exactMatch, subdomainMatch, matchSource)))"

definition search_parts :: "TrieNode \<Rightarrow> string list \<Rightarrow> SearchResult" where
  "search_parts root parts =
     (case search_walk parts root (False, False, '''') of
        (exactMatch, subdomainMatch, matchSource) \<Rightarrow>
          if exactMatch
          then \<lparr>found = True, matchType = Exact, confidence = 100, source_r = matchSource\<rparr>
          else if subdomainMatch
          then \<lparr>found = True, matchType = Subdomain, confidence = 85, source_r = matchSource\<rparr>
          else \<lparr>found = False, matchType = Exact, confidence = 0, source_r = ''''\<rparr>)"

subsection \<open>The index that splits with \<open>split(".").reverse()\<close>\<close>

definition TrieIndexBasic_insert :: "TrieNode \<Rightarrow> string \<Rightarrow> string \<Rightarrow> TrieNode" where
  "TrieIndexBasic_insert root domain src = insert_walk (rev (split_on CHR ''.'' domain)) src root"

definition TrieIndexBasic_search :: "TrieNode \<Rightarrow> string \<Rightarrow> SearchResult" where
  "TrieIndexBasic_search root domain = search_parts root (rev (split_on CHR ''.'' domain))"

subsection \<open>The index that splits with \<open>splitDomainReverse\<close>\<close>

text \<open>
  The \<open>while\<close> loop of \<open>splitDomainReverse\<close> need not end, so it is a partial function:
  \<open>None\<close> stands for a call that does not return.
\<close>

partial_function (option) splitDomainReverse_loop ::
  "string \<Rightarrow> string list \<Rightarrow> int \<Rightarrow> int \<Rightarrow> (string list \<times> int) option" where
  "splitDomainReverse_loop domain parts currentIndex dotIndex =
     (if dotIndex \<noteq> -1
      then splitDomainReverse_loop domain
             (parts @ [slice domain (dotIndex + 1) currentIndex])
             dotIndex
             (lastIndexOf_from domain CHR ''.'' (dotIndex - 1))
      else Some (parts, currentIndex))"

declare splitDomainReverse_loop.simps [code]

definition splitDomainReverse :: "string \<Rightarrow> int \<Rightarrow> string list option" where
  "splitDomainReverse domain lastDotIndex =
     (if lastDotIndex = -1 then Some [domain]
      else (case splitDomainReverse_loop domain [] (int (length domain)) lastDotIndex of
              None \<Rightarrow> None
            | Some (parts, currentIndex) \<Rightarrow>
                Some (if currentIndex > 0 then parts @ [slice domain 0 currentIndex] else parts)))"

definition TrieIndex_insert :: "TrieNode \<Rightarrow> string \<Rightarrow> string \<Rightarrow> TrieNode option" where
  "TrieIndex_insert root domain src =
     (case splitDomainReverse domain (lastIndexOf domain CHR ''.'') of
        None \<Rightarrow> None
      | Some parts \<Rightarrow> Some (insert_walk parts src root))"

definition TrieIndex_search :: "TrieNode \<Rightarrow> string \<Rightarrow> SearchResult option" where
  "TrieIndex_search root domain =
     (case splitDomainReverse domain (lastIndexOf domain CHR ''.'') of
        None \<Rightarrow> None
      | Some parts \<Rightarrow> Some (search_parts root parts))"

fun has_walk :: "string list \<Rightarrow> TrieNode \<Rightarrow> bool" where
  "has_walk [] currentNode = isEndOfDomain currentNode"
| "has_walk (part # parts) currentNode =
     (case map_of (children currentNode) part of
        None \<Rightarrow> False
      | Some childNode \<Rightarrow> has_walk parts childNode)"

definition TrieIndex_has :: "TrieNode \<Rightarrow> string \<Rightarrow> bool option" where
  "TrieIndex_has root domain =
     (case splitDomainReverse domain (lastIndexOf domain CHR ''.'') of
        None \<Rightarrow> None
      | Some parts \<Rightarrow> Some (has_walk parts root))"

fun nodeCount :: "TrieNode \<Rightarrow> nat" where
  \<comment> \<open>\<open>traverse\<close> of \<open>getStats\<close>\<close>
  "nodeCount (TrieNode cs e s) = Suc (sum_list (map (\<lambda>kc. nodeCount (snd kc)) cs))"

record TrieStats =
  nodeCount_s :: nat
  memoryEstimate :: nat

definition TrieIndex_getStats :: "TrieNode \<Rightarrow> TrieStats" where
  "TrieIndex_getStats root = \<lparr>nodeCount_s = nodeCount root, memoryEstimate = nodeCount root * 200\<rparr>"

text \<open>
  Two notions used to state properties of a trie. \<open>terminals\<close> lists every terminal node
  with the labels on the path from the root to it and its source. \<open>trie_inv\<close> says that the
  keys of every node are distinct, which a \<open>Map\<close> guarantees.
\<close>

fun terminals :: "TrieNode \<Rightarrow> (string list \<times> string) list" where
  "terminals (TrieNode cs e s) =
     (if e then [([], s)] else []) @
     concat (map (\<lambda>kc. map (\<lambda>ps. (fst kc # fst ps, snd ps)) (terminals (snd kc))) cs)"

fun trie_inv :: "TrieNode \<Rightarrow> bool" where
  "trie_inv (TrieNode cs e s) \<longleftrightarrow> distinct (map fst cs) \<and> (\<forall>kc \<in> set cs. trie_inv (snd kc))"

section \<open>In-memory LRU cache\<close>

text \<open>
  The result of a lookup. \<open>validationTime\<close> is a wall-clock measurement and
  \<open>dnsValidation\<close> is never set by the code modelled here; both are left out.
\<close>

record EmailValidationResult =
  email_e :: string
  isValid :: bool
  isDisposable :: bool
  isAllowed :: bool
  isBlacklisted :: bool
  domain_e :: string
  localPart_e :: string
  matchType_e :: MatchType
  confidence_e :: nat
  source_e :: "string option"
  errors :: "string list"
  warnings :: "string list"

record CacheEntry =
  result :: EmailValidationResult
  timestamp :: int
  hitCount :: nat
  ttl :: int

text \<open>
  The \<open>Map\<close> of the cache is an association list in insertion order: the first entry is
  the one \<open>keys().next()\<close> yields. Every reading of \<open>Date.now()\<close> is an argument.
\<close>

record MemoryCache =
  cache :: "(string \<times> CacheEntry) list"
  maxSize :: int
  defaultTtl :: int

definition Map_delete :: "'k \<Rightarrow> ('k \<times> 'v) list \<Rightarrow> ('k \<times> 'v) list" where
  "Map_delete k m = filter (\<lambda>p. fst p \<noteq> k) m"

definition or_default :: "int option \<Rightarrow> int \<Rightarrow> int" where
  \<comment> \<open>\<open>x || d\<close> for an optional number: \<open>undefined\<close> and 0 give \<open>d\<close>\<close>
  "or_default x d = (case x of None \<Rightarrow> d | Some v \<Rightarrow> if v = 0 then d else v)"

definition MemoryCache_new :: "int option \<Rightarrow> int option \<Rightarrow> MemoryCache" where
  "MemoryCache_new config_maxSize config_defaultTtl =
     \<lparr> cache = [],
       maxSize = or_default config_maxSize 10000,
       defaultTtl = or_default config_defaultTtl (24 * 60 * 60 * 1000) \<rparr>"


definition MemoryCache_set ::
  "MemoryCache \<Rightarrow> string \<Rightarrow> EmailValidationResult \<Rightarrow> int option \<Rightarrow> int \<Rightarrow> MemoryCache" where
  \<comment> \<open>\<open>if (!oldestKey) return\<close> leaves the cache as it is when the cache is empty or the
      oldest key is the empty string\<close>
  "MemoryCache_set mc key res ttl_arg now =
     (let entry = \<lparr>result = res, timestamp = now, hitCount = 0,
                   ttl = or_default ttl_arg (defaultTtl mc)\<rparr>
      in if int (length (cache mc)) \<ge> maxSize mc
         then (case cache mc of
                 [] \<Rightarrow> mc
               | (oldestKey, _) # _ \<Rightarrow>
                   if oldestKey = '''' then mc
                   else mc\<lparr>cache := Map_set key entry (Map_delete oldestKey (cache mc))\<rparr>)
         else mc\<lparr>cache := Map_set key entry (cache mc)\<rparr>)"

definition MemoryCache_has :: "MemoryCache \<Rightarrow> string \<Rightarrow> bool" where
  "MemoryCache_has mc key \<longleftrightarrow> map_of (cache mc) key \<noteq> None"

section \<open>Domain checker\<close>

text \<open>
  The checker receives its trie and its Bloom filter as objects and calls one method of
  each: \<open>search\<close> and \<open>contains\<close>. The two fields hold that method of the object passed in
  (\<open>None\<close> when the object is absent), so that either implementation of each class fits.
  A \<open>search\<close> that does not return is \<open>None\<close>, and so is then the check that called it.
\<close>

datatype IndexingStrategy = Trie | Hash | Bloom | Hybrid

record DisposableResult =
  isMatch :: bool
  matchType_d :: MatchType
  confidence_d :: nat
  source_d :: "string option"

record DomainChecker =
  disposableDomainsSet :: "string set"
  allowlistSet :: "string set"
  blacklistSet :: "string set"
  trustedDomains :: "string list"
  enableSubdomainChecking :: bool
  domainTrie :: "(string \<Rightarrow> SearchResult option) option"
  bloomFilter :: "(string \<Rightarrow> bool) option"
  indexingStrategy :: IndexingStrategy
  domainCache :: "(string \<times> DisposableResult) list"

definition noMatch :: DisposableResult where
  "noMatch = \<lparr>isMatch = False, matchType_d = Exact, confidence_d = 0, source_d = None\<rparr>"

definition bloomRejects :: "DomainChecker \<Rightarrow> string \<Rightarrow> bool" where
  \<comment> \<open>\<open>this.bloomFilter && !this.bloomFilter.contains(domain)\<close>\<close>
  "bloomRejects dc domain =
     (case bloomFilter dc of None \<Rightarrow> False | Some contains \<Rightarrow> \<not> contains domain)"

definition trieMatch :: "SearchResult \<Rightarrow> string \<Rightarrow> DisposableResult option" where
  \<comment> \<open>\<open>trieResult.found && trieResult.source === "disposable"\<close>, with the label the caller reports\<close>
  "trieMatch trieResult label =
     (if found trieResult \<and> source_r trieResult = ''disposable''
      then Some \<lparr>isMatch = True, matchType_d = matchType trieResult,
                 confidence_d = confidence trieResult, source_d = Some label\<rparr>
      else None)"

subsection \<open>The checker without a result cache\<close>

fun join :: "string \<Rightarrow> string list \<Rightarrow> string" where
  \<comment> \<open>\<open>parts.join(sep)\<close>\<close>
  "join sep [] = []"
| "join sep [p] = p"
| "join sep (p # q # ps) = p @ sep @ join sep (q # ps)"

definition parentDomains :: "string \<Rightarrow> string list" where
  \<comment> \<open>\<open>parts.slice(i).join(".")\<close> for \<open>i\<close> from 1 below \<open>parts.length\<close>\<close>
  "parentDomains domain =
     (let parts = split_on CHR ''.'' domain
      in map (\<lambda>i. join ''.'' (drop i parts)) [1..<length parts])"




definition hashFallback :: "DomainChecker \<Rightarrow> string \<Rightarrow> DisposableResult" where
  \<comment> \<open>the last part of \<open>checkDisposableDomain\<close>: the subdomain check of the hash strategy\<close>
  "hashFallback dc domain =
     (if enableSubdomainChecking dc \<and> indexingStrategy dc = Hash
         \<and> list_ex (\<lambda>parentDomain. parentDomain \<in> disposableDomainsSet dc) (parentDomains domain)
      then \<lparr>isMatch = True, matchType_d = Subdomain, confidence_d = 85,
            source_d = Some ''subdomain-check''\<rparr>
      else noMatch)"

definition DomainChecker_checkDisposableDomain :: "DomainChecker \<Rightarrow> string \<Rightarrow> DisposableResult option" where
  "DomainChecker_checkDisposableDomain dc domain =
     (if bloomRejects dc domain then Some noMatch
      else if domain \<in> disposableDomainsSet dc
      then Some \<lparr>isMatch = True, matchType_d = Exact, confidence_d = 100,
                 source_d = Some ''database''\<rparr>
      else (case (if enableSubdomainChecking dc \<and> indexingStrategy dc \<noteq> Hash
                  then domainTrie dc else None) of
              None \<Rightarrow> Some (hashFallback dc domain)
            | Some search \<Rightarrow>
                (case search domain of
                   None \<Rightarrow> None
                 | Some trieResult \<Rightarrow>
                     (case trieMatch trieResult ''trie-index'' of
                        Some r \<Rightarrow> Some r
                      | None \<Rightarrow> Some (hashFallback dc domain)))))"

subsection \<open>The checker with a result cache\<close>

function subdomainLoop :: "(string \<Rightarrow> bool) \<Rightarrow> string \<Rightarrow> int \<Rightarrow> bool" where
  \<comment> \<open>the \<open>while (dotIndex !== -1)\<close> loop shared by the three subdomain checks; \<open>member\<close> is
      the membership test of the loop body, and the result says whether the loop returned
      a match\<close>
  "subdomainLoop member domain dotIndex =
     (if dotIndex \<noteq> -1
      then (if member (slice_from domain (dotIndex + 1)) then True
            else subdomainLoop member domain (indexOf_from domain CHR ''.'' (nat (dotIndex + 1))))
      else False)"
  by pat_completeness auto
termination
proof (relation "measure (\<lambda>(member, domain, dotIndex).
         if dotIndex = -1 then 0
         else if dotIndex < 0 then length domain + 3
         else 1 + nat (int (length domain) - dotIndex))")
  show "wf (measure (\<lambda>(member, domain, dotIndex).
         if dotIndex = -1 then 0
         else if dotIndex < 0 then length domain + 3
         else 1 + nat (int (length domain) - dotIndex)))"
    by simp
next
  fix member :: "string \<Rightarrow> bool" and domain :: string and dotIndex :: int
  assume d: "dotIndex \<noteq> -1"
  define n where "n = indexOf_from domain CHR ''.'' (nat (dotIndex + 1))"
  have "n = -1 \<or> (int (nat (dotIndex + 1)) \<le> n \<and> n < int (length domain))"
  proof (cases "filter (\<lambda>i. domain ! i = CHR ''.'') [nat (dotIndex + 1)..<length domain]")
    case Nil
    then show ?thesis by (simp add: n_def indexOf_from_def)
  next
    case (Cons i rest)
    then have "i \<in> set (filter (\<lambda>i. domain ! i = CHR ''.'') [nat (dotIndex + 1)..<length domain])"
      by simp
    then have "nat (dotIndex + 1) \<le> i \<and> i < length domain" by simp
    then have "int (nat (dotIndex + 1)) \<le> int i \<and> int i < int (length domain)" by linarith
    with Cons show ?thesis by (simp add: n_def indexOf_from_def)
  qed
  with d show "((member, domain, indexOf_from domain CHR ''.'' (nat (dotIndex + 1))),
                (member, domain, dotIndex))
      \<in> measure (\<lambda>(member, domain, dotIndex).
         if dotIndex = -1 then 0
         else if dotIndex < 0 then length domain + 3
         else 1 + nat (int (length domain) - dotIndex))"
    unfolding n_def [symmetric] by auto
qed

definition checkSubdomain :: "(string \<Rightarrow> bool) \<Rightarrow> string \<Rightarrow> bool" where
  \<comment> \<open>the loop, entered with \<open>domain.indexOf(".")\<close>\<close>
  "checkSubdomain member domain = subdomainLoop member domain (indexOf_from domain CHR ''.'' 0)"



definition checkWithHash :: "DomainChecker \<Rightarrow> string \<Rightarrow> DisposableResult" where
  "checkWithHash dc domain =
     (if \<not> enableSubdomainChecking dc then noMatch
      else if checkSubdomain (\<lambda>parentDomain. parentDomain \<in> disposableDomainsSet dc) domain
      then \<lparr>isMatch = True, matchType_d = Subdomain, confidence_d = 85, source_d = Some ''hash''\<rparr>
      else noMatch)"

definition checkWithTrie :: "DomainChecker \<Rightarrow> string \<Rightarrow> DisposableResult option" where
  "checkWithTrie dc domain =
     (case (if enableSubdomainChecking dc then domainTrie dc else None) of
        None \<Rightarrow> Some noMatch
      | Some search \<Rightarrow>
          (case search domain of
             None \<Rightarrow> None
           | Some trieResult \<Rightarrow>
               (case trieMatch trieResult ''trie'' of
                  Some r \<Rightarrow> Some r
                | None \<Rightarrow> Some noMatch)))"

definition checkWithBloom :: "DomainChecker \<Rightarrow> string \<Rightarrow> DisposableResult" where
  "checkWithBloom dc domain =
     (if bloomFilter dc = None then noMatch
      else if enableSubdomainChecking dc then checkWithHash dc domain
      else noMatch)"

definition checkWithHybrid :: "DomainChecker \<Rightarrow> string \<Rightarrow> DisposableResult option" where
  "checkWithHybrid dc domain =
     (if domainTrie dc \<noteq> None \<and> enableSubdomainChecking dc
      then (case checkWithTrie dc domain of
              None \<Rightarrow> None
            | Some trieResult \<Rightarrow>
                if isMatch trieResult then Some trieResult
                else Some (checkWithHash dc domain))
      else Some (checkWithHash dc domain))"

definition performDisposableCheck :: "DomainChecker \<Rightarrow> string \<Rightarrow> DisposableResult option" where
  "performDisposableCheck dc domain =
     (if bloomRejects dc domain then Some noMatch
      else if domain \<in> disposableDomainsSet dc
      then Some \<lparr>isMatch = True, matchType_d = Exact, confidence_d = 100,
                 source_d = Some ''database''\<rparr>
      else (case indexingStrategy dc of
              Trie \<Rightarrow> checkWithTrie dc domain
            | Bloom \<Rightarrow> Some (checkWithBloom dc domain)
            | Hybrid \<Rightarrow> checkWithHybrid dc domain
            | Hash \<Rightarrow> Some (checkWithHash dc domain)))"

definition CACHE_SIZE_LIMIT :: nat where
  "CACHE_SIZE_LIMIT = 5000"

definition CachedDomainChecker_checkDisposableDomain ::
  "DomainChecker \<Rightarrow> string \<Rightarrow> (DisposableResult \<times> DomainChecker) option" where
  "CachedDomainChecker_checkDisposableDomain dc domain =
     (case map_of (domainCache dc) domain of
        Some cached \<Rightarrow> Some (cached, dc)
      | None \<Rightarrow>
          (case performDisposableCheck dc domain of
             None \<Rightarrow> None
           | Some res \<Rightarrow>
               (let kept = (if length (domainCache dc) \<ge> CACHE_SIZE_LIMIT
                            then (case domainCache dc of
                                    [] \<Rightarrow> []
                                  | (firstKey, _) # _ \<Rightarrow> Map_delete firstKey (domainCache dc))
                            else domainCache dc)
                in Some (res, dc\<lparr>domainCache := Map_set domain res kept\<rparr>))))"

subsection \<open>Comparing the two checkers\<close>

text \<open>
  \<open>suffixesAfterDots\<close> lists the text after each dot of a string, first dot first: the
  parent domains that both subdomain walks visit. \<open>outcome\<close> is what a disposable check
  reports apart from its source label.
\<close>

fun suffixesAfterDots :: "string \<Rightarrow> string list" where
  "suffixesAfterDots [] = []"
| "suffixesAfterDots (c # cs) =
     (if c = CHR ''.'' then cs # suffixesAfterDots cs else suffixesAfterDots cs)"

definition outcome :: "DisposableResult \<Rightarrow> bool \<times> MatchType \<times> nat" where
  "outcome r = (isMatch r, matchType_d r, confidence_d r)"

section \<open>Email validator\<close>















section \<open>The facade\<close>

















section \<open>Properties of the Bloom filters\<close>

lemma testBit_Some:
  "testBit bits (Some b) \<longleftrightarrow> b div 8 < length bits \<and> bit (bits ! (b div 8)) (b mod 8)"
  by (simp add: testBit_def Let_def and_exp_eq_0_iff_not_bit)

lemma testBit_None [simp]: "\<not> testBit bits None"
  by (simp add: testBit_def)

lemma length_setBit [simp]: "length (setBit bits i) = length bits"
  by (simp add: setBit_def Let_def split: option.split)

lemma testBit_setBit_same:
  "b div 8 < length bits \<Longrightarrow> testBit (setBit bits (Some b)) (Some b)"
  by (simp add: testBit_Some setBit_def Let_def bit_or_iff bit_exp_iff possible_bit_word)

lemma testBit_setBit_mono:
  "testBit bits i \<Longrightarrow> testBit (setBit bits j) i"
proof (cases i)
  case None
  then show "testBit bits i \<Longrightarrow> ?thesis" by simp
next
  case (Some b)
  assume "testBit bits i"
  with Some have b: "b div 8 < length bits" "bit (bits ! (b div 8)) (b mod 8)"
    by (simp_all add: testBit_Some)
  show ?thesis
  proof (cases j)
    case None
    with Some b show ?thesis by (simp add: testBit_Some setBit_def)
  next
    case (Some c)
    with \<open>i = Some b\<close> b show ?thesis
      by (simp add: testBit_Some setBit_def Let_def nth_list_update bit_or_iff)
  qed
qed

lemma foldl_setBit_mono:
  "testBit bits i \<Longrightarrow> testBit (foldl (\<lambda>bs s. setBit bs (f s)) bits ss) i"
  by (induction ss arbitrary: bits) (simp_all add: testBit_setBit_mono)

lemma length_foldl_setBit [simp]:
  "length (foldl (\<lambda>bs s. setBit bs (f s)) bits ss) = length bits"
  by (induction ss arbitrary: bits) simp_all

lemma foldl_setBit_sets:
  "s \<in> set ss \<Longrightarrow> f s = Some b \<Longrightarrow> b div 8 < length bits \<Longrightarrow>
   testBit (foldl (\<lambda>bs s. setBit bs (f s)) bits ss) (Some b)"
proof (induction ss arbitrary: bits)
  case Nil
  then show ?case by simp
next
  case (Cons a ss)
  show ?case
  proof (cases "s = a")
    case True
    with Cons.prems have "testBit (setBit bits (f a)) (Some b)"
      by (simp add: testBit_setBit_same)
    then show ?thesis by (simp add: foldl_setBit_mono)
  next
    case False
    with Cons.prems have "s \<in> set ss" by simp
    from Cons.IH [OF this Cons.prems(2), of "setBit bits (f a)"] Cons.prems(3)
    show ?thesis by simp
  qed
qed

lemma hash_in_range:
  assumes "0 < size_m bf"
  shows "\<exists>b. BloomFilter_hash bf item seed = Some b \<and> b < size_m bf"
proof -
  obtain h1 h2 where h: "hash_loop (2166136261, seed) item = (h1, h2)"
    by (cases "hash_loop (2166136261, seed) item")
  have "nat \<bar>sgn (h1 + h2) * (\<bar>h1 + h2\<bar> mod int (size_m bf))\<bar> < size_m bf"
    using assms by (simp add: abs_mult abs_sgn_eq nat_less_iff)
  with assms h show ?thesis
    by (simp add: BloomFilter_hash_def js_rem_def js_abs_def)
qed

lemma BloomFilter_add_fields [simp]:
  "size_m (BloomFilter_add bf x) = size_m bf"
  "numHashFunctions (BloomFilter_add bf x) = numHashFunctions bf"
  "hashSeeds (BloomFilter_add bf x) = hashSeeds bf"
  "byteSize (BloomFilter_add bf x) = byteSize bf"
  "length (bitArray (BloomFilter_add bf x)) = length (bitArray bf)"
  by (simp_all add: BloomFilter_add_def)

lemma BloomFilter_hash_add [simp]:
  "BloomFilter_hash (BloomFilter_add bf x) = BloomFilter_hash bf"
  by (rule ext)+ (simp add: BloomFilter_hash_def)

lemma seedsUsed_add [simp]: "seedsUsed (BloomFilter_add bf x) = seedsUsed bf"
  by (simp add: seedsUsed_def)

lemma BloomFilter_inv_add: "BloomFilter_inv bf \<Longrightarrow> BloomFilter_inv (BloomFilter_add bf x)"
  by (simp add: BloomFilter_inv_def)

lemma contains_add_mono:
  "BloomFilter_contains bf x \<Longrightarrow> BloomFilter_contains (BloomFilter_add bf y) x"
proof -
  assume a: "BloomFilter_contains bf x"
  have "testBit (bitArray (BloomFilter_add bf y)) (BloomFilter_hash bf x seed)"
    if "seed \<in> set (seedsUsed bf)" for seed
  proof -
    from a that have "testBit (bitArray bf) (BloomFilter_hash bf x seed)"
      by (simp add: BloomFilter_contains_def list_all_iff)
    then show ?thesis
      by (simp add: BloomFilter_add_def foldl_setBit_mono)
  qed
  then show ?thesis
    by (simp add: BloomFilter_contains_def list_all_iff)
qed

lemma contains_adds_mono:
  "BloomFilter_contains bf x \<Longrightarrow> BloomFilter_contains (foldl BloomFilter_add bf ys) x"
  by (induction ys arbitrary: bf) (simp_all add: contains_add_mono)

lemma contains_after_add:
  assumes "BloomFilter_inv bf"
  shows "BloomFilter_contains (BloomFilter_add bf x) x"
  unfolding BloomFilter_contains_def list_all_iff
proof
  fix seed assume s: "seed \<in> set (seedsUsed (BloomFilter_add bf x))"
  then have s': "seed \<in> set (seedsUsed bf)" by simp
  then have "0 < loopCount (numHashFunctions bf)" by (auto simp: seedsUsed_def)
  with assms have m: "0 < size_m bf" by (simp add: BloomFilter_inv_def)
  from hash_in_range [OF m, of x seed] obtain b where
    b: "BloomFilter_hash bf x seed = Some b" "b < size_m bf" by blast
  from assms b(2) have "b div 8 < length (bitArray bf)"
    by (simp add: BloomFilter_inv_def)
  from foldl_setBit_sets [where f = "BloomFilter_hash bf x", OF s' b(1) this]
  have "testBit (bitArray (BloomFilter_add bf x)) (Some b)"
    by (simp add: BloomFilter_add_def)
  then show "testBit (bitArray (BloomFilter_add bf x)) (BloomFilter_hash (BloomFilter_add bf x) x seed)"
    by (simp add: b(1))
qed

lemma writeTrue_fields [simp]:
  "size_b (writeTrue bf i) = size_b bf"
  "numHashFunctions_b (writeTrue bf i) = numHashFunctions_b bf"
  by (simp_all add: writeTrue_def split: option.split)

lemma readBit_writeTrue_same: "readBit (writeTrue bf i) i"
  by (cases i) (simp_all add: readBit_def writeTrue_def nth_append)

lemma readBit_writeTrue_mono: "readBit bf i \<Longrightarrow> readBit (writeTrue bf j) i"
  by (cases i; cases j) (auto simp: readBit_def writeTrue_def nth_append nth_list_update)

lemma foldl_writeTrue_fields [simp]:
  "size_b (foldl (\<lambda>b i. writeTrue b (f i)) bf is) = size_b bf"
  "numHashFunctions_b (foldl (\<lambda>b i. writeTrue b (f i)) bf is) = numHashFunctions_b bf"
  by (induction "is" arbitrary: bf) simp_all

lemma foldl_writeTrue_mono:
  "readBit bf i \<Longrightarrow> readBit (foldl (\<lambda>b j. writeTrue b (f j)) bf js) i"
  by (induction js arbitrary: bf) (simp_all add: readBit_writeTrue_mono)

lemma foldl_writeTrue_sets:
  "j \<in> set js \<Longrightarrow> readBit (foldl (\<lambda>b j. writeTrue b (f j)) bf js) (f j)"
proof (induction js arbitrary: bf)
  case Nil
  then show ?case by simp
next
  case (Cons a js)
  show ?case
  proof (cases "j = a")
    case True
    then show ?thesis
      by (simp add: foldl_writeTrue_mono readBit_writeTrue_same)
  next
    case False
    with Cons.prems have "j \<in> set js" by simp
    from Cons.IH [OF this] show ?thesis by simp
  qed
qed

lemma BloomFilterBasic_add_fields [simp]:
  "size_b (BloomFilterBasic_add bf x) = size_b bf"
  "numHashFunctions_b (BloomFilterBasic_add bf x) = numHashFunctions_b bf"
  by (simp_all add: BloomFilterBasic_add_def)

lemma hashFunction_add [simp]:
  "hashFunction (BloomFilterBasic_add bf x) = hashFunction bf"
  by (rule ext)+ (simp add: hashFunction_def)

lemma basic_contains_after_add: "BloomFilterBasic_contains (BloomFilterBasic_add bf x) x"
proof -
  have "readBit (BloomFilterBasic_add bf x) (hashFunction bf i x)"
    if "i \<in> set [0..<loopCount (numHashFunctions_b bf)]" for i
    unfolding BloomFilterBasic_add_def
    using that by (rule foldl_writeTrue_sets [where f = "\<lambda>i. hashFunction bf i x"])
  then show ?thesis
    by (simp add: BloomFilterBasic_contains_def list_all_iff)
qed

lemma basic_contains_add_mono:
  assumes "BloomFilterBasic_contains bf x"
  shows "BloomFilterBasic_contains (BloomFilterBasic_add bf y) x"
proof -
  have "readBit (BloomFilterBasic_add bf y) (hashFunction bf i x)"
    if "i < loopCount (numHashFunctions_b bf)" for i
  proof -
    from assms that have "readBit bf (hashFunction bf i x)"
      by (simp add: BloomFilterBasic_contains_def list_all_iff)
    then show ?thesis
      unfolding BloomFilterBasic_add_def by (rule foldl_writeTrue_mono)
  qed
  then show ?thesis
    by (simp add: BloomFilterBasic_contains_def list_all_iff)
qed

lemma basic_contains_adds_mono:
  "BloomFilterBasic_contains bf x \<Longrightarrow> BloomFilterBasic_contains (foldl BloomFilterBasic_add bf ys) x"
  by (induction ys arbitrary: bf) (simp_all add: basic_contains_add_mono)

lemma length_orByte [simp]: "length (orByte other bits i) = length bits"
  by (simp add: orByte_def)


lemma BloomFilter_inv_new:
  "(0 < loopCount k \<longrightarrow> 0 < m) \<Longrightarrow> BloomFilter_inv (BloomFilter_new m k)"
  by (simp add: BloomFilter_inv_def BloomFilter_new_def)

lemma BloomFilter_inv_clear: "BloomFilter_inv bf \<Longrightarrow> BloomFilter_inv (BloomFilter_clear bf)"
  by (simp add: BloomFilter_inv_def BloomFilter_clear_def)

lemma BloomFilter_inv_adds:
  "BloomFilter_inv bf \<Longrightarrow> BloomFilter_inv (foldl BloomFilter_add bf xs)"
  by (induction xs arbitrary: bf) (simp_all add: BloomFilter_inv_add)

lemma contains_every_added:
  "BloomFilter_inv bf \<Longrightarrow> x \<in> set xs \<Longrightarrow> BloomFilter_contains (foldl BloomFilter_add bf xs) x"
proof (induction xs arbitrary: bf)
  case Nil
  then show ?case by simp
next
  case (Cons a xs)
  show ?case
  proof (cases "x = a")
    case True
    from Cons.prems(1) have "BloomFilter_contains (BloomFilter_add bf a) a"
      by (rule contains_after_add)
    with True show ?thesis by (simp add: contains_adds_mono)
  next
    case False
    with Cons.prems(2) have "x \<in> set xs" by simp
    with Cons.IH [of "BloomFilter_add bf a"] Cons.prems(1) show ?thesis
      by (simp add: BloomFilter_inv_add)
  qed
qed

lemma BloomFilter_inv_merge:
  "BloomFilter_inv bf \<Longrightarrow> BloomFilter_merge bf other = Inr bf' \<Longrightarrow> BloomFilter_inv bf'"
proof -
  have l: "length (foldl (orByte other) bits ns) = length bits" for bits ns
    by (induction ns arbitrary: bits) simp_all
  assume "BloomFilter_inv bf" "BloomFilter_merge bf other = Inr bf'"
  then show ?thesis
    by (auto simp: BloomFilter_merge_def BloomFilter_inv_def l split: if_splits)
qed

section \<open>Properties of the trie index\<close>

lemma map_of_Map_set: "map_of (Map_set k v cs) = (map_of cs)(k \<mapsto> v)"
  by (induction cs) (auto simp: fun_eq_iff)

lemma Map_set_Map_set [simp]: "Map_set k v' (Map_set k v cs) = Map_set k v' cs"
  by (induction cs) auto

lemma map_fst_Map_set:
  "map fst (Map_set k v cs) = (if k \<in> fst ` set cs then map fst cs else map fst cs @ [k])"
  by (induction cs) auto

lemma distinct_Map_set: "distinct (map fst cs) \<Longrightarrow> distinct (map fst (Map_set k v cs))"
  by (simp add: map_fst_Map_set)

lemma set_Map_set_subset: "set (Map_set k v cs) \<subseteq> insert (k, v) (set cs)"
  by (induction cs) auto

lemma insert_walk_twice:
  "insert_walk p s2 (insert_walk p s1 t) = insert_walk p s2 t"
proof (induction p arbitrary: t)
  case Nil
  then show ?case by (cases t) simp
next
  case (Cons k p)
  then show ?case by (cases t) (simp add: map_of_Map_set)
qed

lemma sum_list_Map_set_new:
  "map_of cs k = None \<Longrightarrow>
   sum_list (map (\<lambda>kc. f (snd kc)) (Map_set k v cs)) = sum_list (map (\<lambda>kc. f (snd kc)) cs) + (f v :: nat)"
  by (induction cs) (auto split: if_splits)

lemma sum_list_Map_set_old:
  "map_of cs k = Some c \<Longrightarrow>
   sum_list (map (\<lambda>kc. f (snd kc)) (Map_set k v cs)) + f c = sum_list (map (\<lambda>kc. f (snd kc)) cs) + (f v :: nat)"
  by (induction cs) (auto split: if_splits)

lemma nodeCount_insert_walk_source:
  "nodeCount (insert_walk p s2 t) = nodeCount (insert_walk p s1 t)"
proof (induction p arbitrary: t)
  case Nil
  then show ?case by (cases t) simp
next
  case (Cons k p)
  obtain cs e s where t: "t = TrieNode cs e s" by (cases t)
  show ?case
  proof (cases "map_of cs k")
    case None
    with t Cons.IH [of newTrieNode] show ?thesis
      by (simp add: sum_list_Map_set_new)
  next
    case (Some c)
    from sum_list_Map_set_old [OF Some, of nodeCount "insert_walk p s2 c"]
         sum_list_Map_set_old [OF Some, of nodeCount "insert_walk p s1 c"]
         Cons.IH [of c] t Some
    show ?thesis by simp
  qed
qed

lemma trie_inv_newTrieNode [simp]: "trie_inv newTrieNode"
  by (simp add: newTrieNode_def)

lemma trie_inv_insert_walk: "trie_inv t \<Longrightarrow> trie_inv (insert_walk p s t)"
proof (induction p arbitrary: t)
  case Nil
  then show ?case by (cases t) simp
next
  case (Cons k p)
  obtain cs e s0 where t: "t = TrieNode cs e s0" by (cases t)
  define child where "child = (case map_of cs k of None \<Rightarrow> newTrieNode | Some c \<Rightarrow> c)"
  from Cons.prems t have inv: "distinct (map fst cs)" "\<forall>kc \<in> set cs. trie_inv (snd kc)"
    by simp_all
  have "trie_inv child"
  proof (cases "map_of cs k")
    case None
    then show ?thesis by (simp add: child_def)
  next
    case (Some c)
    then have "(k, c) \<in> set cs" by (rule map_of_SomeD)
    with inv(2) Some show ?thesis by (auto simp: child_def)
  qed
  then have c': "trie_inv (insert_walk p s child)" by (rule Cons.IH)
  have "\<forall>kc \<in> set (Map_set k (insert_walk p s child) cs). trie_inv (snd kc)"
    using set_Map_set_subset [of k "insert_walk p s child" cs] inv(2) c' by auto
  with inv(1) show ?case
    by (simp add: t child_def [symmetric] distinct_Map_set)
qed

lemma filter_terminals_children:
  "distinct (map fst cs) \<Longrightarrow>
   filter (\<lambda>ps. fst ps = k # p)
     (concat (map (\<lambda>kc. map (\<lambda>ps. (fst kc # fst ps, snd ps)) (terminals (snd kc))) cs)) =
   (case map_of cs k of
      None \<Rightarrow> []
    | Some c \<Rightarrow> map (\<lambda>ps. (k # fst ps, snd ps)) (filter (\<lambda>ps. fst ps = p) (terminals c)))"
proof (induction cs)
  case Nil
  then show ?case by simp
next
  case (Cons a cs)
  obtain k' c' where a: "a = (k', c')" by (cases a)
  from Cons.prems a have d: "k' \<notin> fst ` set cs" "distinct (map fst cs)" by auto
  show ?case
  proof (cases "k' = k")
    case True
    with d(1) have "map_of cs k = None" by (simp add: map_of_eq_None_iff)
    with Cons.IH [OF d(2)] True a show ?thesis
      by (simp add: filter_map comp_def)
  next
    case False
    with Cons.IH [OF d(2)] a show ?thesis
      by (simp add: filter_map comp_def)
  qed
qed

lemma terminals_insert_walk:
  "trie_inv t \<Longrightarrow> filter (\<lambda>ps. fst ps = p) (terminals (insert_walk p s t)) = [(p, s)]"
proof (induction p arbitrary: t)
  case Nil
  obtain cs e s0 where t: "t = TrieNode cs e s0" by (cases t)
  show ?case by (simp add: t filter_concat comp_def filter_map)
next
  case (Cons k p)
  obtain cs e s0 where t: "t = TrieNode cs e s0" by (cases t)
  define child where "child = (case map_of cs k of None \<Rightarrow> newTrieNode | Some c \<Rightarrow> c)"
  from Cons.prems t have inv: "distinct (map fst cs)" "\<forall>kc \<in> set cs. trie_inv (snd kc)"
    by simp_all
  have "trie_inv child"
  proof (cases "map_of cs k")
    case None
    then show ?thesis by (simp add: child_def)
  next
    case (Some c)
    then have "(k, c) \<in> set cs" by (rule map_of_SomeD)
    with inv(2) Some show ?thesis by (auto simp: child_def)
  qed
  then have IH: "filter (\<lambda>ps. fst ps = p) (terminals (insert_walk p s child)) = [(p, s)]"
    by (rule Cons.IH)
  have d: "distinct (map fst (Map_set k (insert_walk p s child) cs))"
    using inv(1) by (rule distinct_Map_set)
  show ?case
    by (simp add: t child_def [symmetric] filter_terminals_children [OF d] map_of_Map_set IH)
qed

lemma lastIndexOf_from_cases:
  "lastIndexOf_from s c pos = -1 \<or>
   (\<exists>i. lastIndexOf_from s c pos = int i \<and> i < length s \<and> int i \<le> max pos 0 \<and> s ! i = c)"
proof (cases "filter (\<lambda>i. s ! i = c) (rev [0..<nat (min (max pos 0) (int (length s) - 1) + 1)])")
  case Nil
  then show ?thesis by (simp add: lastIndexOf_from_def Let_def)
next
  case (Cons i rest)
  then have "i \<in> set (filter (\<lambda>i. s ! i = c) (rev [0..<nat (min (max pos 0) (int (length s) - 1) + 1)]))"
    by simp
  then have "s ! i = c" "i < nat (min (max pos 0) (int (length s) - 1) + 1)" by simp_all
  then have "i < length s \<and> int i \<le> max pos 0 \<and> s ! i = c" by auto
  with Cons show ?thesis by (simp add: lastIndexOf_from_def Let_def)
qed

lemma splitDomainReverse_loop_returns:
  assumes "domain = [] \<or> hd domain \<noteq> CHR ''.''"
  shows "-1 \<le> dotIndex \<Longrightarrow> \<exists>r. splitDomainReverse_loop domain parts currentIndex dotIndex = Some r"
proof (induction "nat (dotIndex + 1)" arbitrary: dotIndex parts currentIndex rule: less_induct)
  case less
  show ?case
  proof (cases "dotIndex = -1")
    case True
    then show ?thesis by (simp add: splitDomainReverse_loop.simps)
  next
    case False
    with less.prems have pos: "0 \<le> dotIndex" by simp
    define next_dot where "next_dot = lastIndexOf_from domain CHR ''.'' (dotIndex - 1)"
    have "-1 \<le> next_dot \<and> next_dot < dotIndex"
    proof -
      from lastIndexOf_from_cases [of domain "CHR ''.''" "dotIndex - 1"]
      consider "next_dot = -1"
        | i where "next_dot = int i" "i < length domain" "int i \<le> max (dotIndex - 1) 0"
            "domain ! i = CHR ''.''"
        unfolding next_dot_def by blast
      then show ?thesis
      proof cases
        case 1
        with pos show ?thesis by simp
      next
        case 2
        from 2(2) assms have "hd domain \<noteq> CHR ''.''" by auto
        moreover from 2(2) have "hd domain = domain ! 0" by (cases domain) simp_all
        ultimately have "i \<noteq> 0" using 2(4) by (intro notI) simp
        with 2(1,3) show ?thesis by auto
      qed
    qed
    then have "nat (next_dot + 1) < nat (dotIndex + 1)" "-1 \<le> next_dot" by auto
    from less.hyps [OF this]
    obtain r where "splitDomainReverse_loop domain
        (parts @ [slice domain (dotIndex + 1) currentIndex]) dotIndex next_dot = Some r"
      by blast
    with False show ?thesis
      by (subst splitDomainReverse_loop.simps) (simp add: next_dot_def)
  qed
qed

lemma lastIndexOf_ge: "-1 \<le> lastIndexOf s c"
  using lastIndexOf_from_cases [of s c "int (length s)"] by (auto simp: lastIndexOf_def)

lemma splitDomainReverse_returns:
  assumes "domain = [] \<or> hd domain \<noteq> CHR ''.''"
  shows "\<exists>parts. splitDomainReverse domain (lastIndexOf domain CHR ''.'') = Some parts"
proof -
  from splitDomainReverse_loop_returns [OF assms lastIndexOf_ge]
  obtain r where "splitDomainReverse_loop domain [] (int (length domain))
      (lastIndexOf domain CHR ''.'') = Some r" by blast
  then show ?thesis
    by (cases r) (simp add: splitDomainReverse_def)
qed

lemma lastIndexOf_from_leading:
  assumes "domain \<noteq> []" "hd domain = c"
  shows "0 \<le> lastIndexOf_from domain c pos"
  using lastIndexOf_from_cases [of domain c pos]
proof
  assume m: "lastIndexOf_from domain c pos = -1"
  from assms have "0 \<in> set (filter (\<lambda>i. domain ! i = c) (rev [0..<nat (min (max pos 0) (int (length domain) - 1) + 1)]))"
    by (cases domain) auto
  then have "filter (\<lambda>i. domain ! i = c) (rev [0..<nat (min (max pos 0) (int (length domain) - 1) + 1)]) \<noteq> []"
    by (metis empty_iff empty_set)
  with m show ?thesis
    by (auto simp: lastIndexOf_from_def Let_def split: list.splits)
next
  assume "\<exists>i. lastIndexOf_from domain c pos = int i \<and> i < length domain \<and> int i \<le> max pos 0 \<and> domain ! i = c"
  then show ?thesis by auto
qed


lemma splitDomainReverse_loop_leading_dot_aux:
  "splitDomainReverse_loop domain parts currentIndex dotIndex = Some r \<Longrightarrow>
   domain \<noteq> [] \<and> hd domain = CHR ''.'' \<longrightarrow> dotIndex < 0"
proof (induct rule: splitDomainReverse_loop.raw_induct [rotated 1, consumes 1])
  case (1 f d p c i r)
  show ?case
  proof (cases "i = -1")
    case True
    then show ?thesis by simp
  next
    case False
    with 1(2) have "f d (p @ [slice d (i + 1) c]) i (lastIndexOf_from d CHR ''.'' (i - 1)) = Some r"
      by simp
    from 1(1) [OF this] lastIndexOf_from_leading [of d "CHR ''.''" "i - 1"]
    show ?thesis by auto
  qed
qed

lemma splitDomainReverse_loop_leading_dot:
  assumes "domain \<noteq> []" "hd domain = CHR ''.''"
    and "splitDomainReverse_loop domain parts currentIndex dotIndex = Some r"
  shows "dotIndex < 0"
  using splitDomainReverse_loop_leading_dot_aux [OF assms(3)] assms(1,2) by simp

lemma splitDomainReverse_leading_dot:
  assumes "domain \<noteq> []" "hd domain = CHR ''.''"
  shows "splitDomainReverse domain (lastIndexOf domain CHR ''.'') = None"
proof -
  have l: "0 \<le> lastIndexOf domain CHR ''.''"
    unfolding lastIndexOf_def by (rule lastIndexOf_from_leading [OF assms])
  have "splitDomainReverse_loop domain [] (int (length domain)) (lastIndexOf domain CHR ''.'') = None"
  proof (cases "splitDomainReverse_loop domain [] (int (length domain)) (lastIndexOf domain CHR ''.'')")
    case None
    then show ?thesis .
  next
    case (Some r)
    from splitDomainReverse_loop_leading_dot [OF assms Some] l show ?thesis by simp
  qed
  with l show ?thesis by (simp add: splitDomainReverse_def)
qed

lemma splitDomainReverse_loop_grows:
  "splitDomainReverse_loop domain parts currentIndex dotIndex = Some r \<Longrightarrow>
   length parts \<le> length (fst r) \<and> (dotIndex \<noteq> -1 \<longrightarrow> length parts < length (fst r))"
proof (induct rule: splitDomainReverse_loop.raw_induct [rotated 1, consumes 1])
  case (1 f d p c i r)
  show ?case
  proof (cases "i = -1")
    case True
    with 1(2) show ?thesis by auto
  next
    case False
    with 1(2) have "f d (p @ [slice d (i + 1) c]) i (lastIndexOf_from d CHR ''.'' (i - 1)) = Some r"
      by simp
    from 1(1) [OF this] show ?thesis by simp
  qed
qed

lemma splitDomainReverse_nonempty:
  assumes "splitDomainReverse domain lastDotIndex = Some parts"
  shows "parts \<noteq> []"
proof (cases "lastDotIndex = -1")
  case True
  with assms show ?thesis by (auto simp: splitDomainReverse_def)
next
  case False
  with assms obtain ps cur where
    l: "splitDomainReverse_loop domain [] (int (length domain)) lastDotIndex = Some (ps, cur)"
    and p: "parts = (if cur > 0 then ps @ [slice domain 0 cur] else ps)"
    by (auto simp: splitDomainReverse_def split: option.splits)
  from splitDomainReverse_loop_grows [OF l] False have "ps \<noteq> []" by auto
  with p show ?thesis by simp
qed

lemma isEndOfDomain_insert_walk_Cons [simp]:
  "isEndOfDomain (insert_walk (p # ps) s t) = isEndOfDomain t"
  "source (insert_walk (p # ps) s t) = source t"
  by (cases t; simp add: Let_def)+

lemma children_insert_walk_Cons:
  "map_of (children (insert_walk (p # ps) s t)) p =
     Some (insert_walk ps s (case map_of (children t) p of None \<Rightarrow> newTrieNode | Some c \<Rightarrow> c))"
  by (cases t) (simp add: Let_def map_of_Map_set)

lemma search_walk_insert_walk:
  "parts \<noteq> [] \<Longrightarrow>
   \<exists>sub. search_walk parts (insert_walk parts s t) (e, b, ms) = (True, sub, s)"
proof (induction parts arbitrary: t e b ms)
  case Nil
  then show ?case by simp
next
  case (Cons p ps)
  define c where "c = (case map_of (children t) p of None \<Rightarrow> newTrieNode | Some c \<Rightarrow> c)"
  have m: "map_of (children (insert_walk (p # ps) s t)) p = Some (insert_walk ps s c)"
    by (simp add: children_insert_walk_Cons c_def)
  show ?case
  proof (cases ps)
    case Nil
    have "isEndOfDomain (insert_walk [] s c)" "source (insert_walk [] s c) = s"
      by (cases c; simp)+
    with Nil m show ?thesis by simp
  next
    case (Cons q qs)
    then have "ps \<noteq> []" by simp
    then have "\<exists>sub. search_walk ps (insert_walk ps s c) (e', b', ms') = (True, sub, s)"
      for e' b' ms' by (rule Cons.IH)
    with m Cons show ?thesis by simp
  qed
qed

lemma search_parts_insert_walk:
  assumes "parts \<noteq> []"
  shows "search_parts (insert_walk parts s t) parts =
     \<lparr>found = True, matchType = Exact, confidence = 100, source_r = s\<rparr>"
proof -
  from search_walk_insert_walk [OF assms, of s t False False "[]"]
  obtain sub where "search_walk parts (insert_walk parts s t) (False, False, []) = (True, sub, s)"
    by blast
  then show ?thesis by (simp add: search_parts_def)
qed

section \<open>Properties of the domain checkers\<close>

lemma split_on_nonempty [simp]: "split_on sep s \<noteq> []"
  by (induction s) (auto split: list.splits)

lemma join_Cons_Cons: "ps \<noteq> [] \<Longrightarrow> join sep (p # ps) = p @ sep @ join sep ps"
  by (cases ps) simp_all

lemma join_Cons_char: "join sep ((c # p) # ps) = c # join sep (p # ps)"
  by (cases ps) simp_all

lemma join_split_on: "join [sep] (split_on sep s) = s"
proof (induction s)
  case Nil
  then show ?case by simp
next
  case (Cons c cs)
  show ?case
  proof (cases "c = sep")
    case True
    with Cons show ?thesis by (simp add: join_Cons_Cons)
  next
    case False
    obtain p ps where s: "split_on sep cs = p # ps"
      by (cases "split_on sep cs") simp_all
    with Cons False show ?thesis by (simp add: join_Cons_char)
  qed
qed

lemma map_upt_Suc_shift: "map f [Suc 0..<Suc n] = map (\<lambda>i. f (Suc i)) [0..<n]"
  by (simp add: map_Suc_upt [symmetric] del: upt_Suc)

lemma parentDomains_Cons_dot:
  "parentDomains (CHR ''.'' # cs) = cs # parentDomains cs"
proof -
  let ?ps = "split_on CHR ''.'' cs"
  have n: "0 < length ?ps" by simp
  have "parentDomains (CHR ''.'' # cs) = map (\<lambda>i. join ''.'' (drop i ?ps)) [0..<length ?ps]"
    by (simp add: parentDomains_def Let_def map_upt_Suc_shift del: upt_Suc)
  also have "[0..<length ?ps] = 0 # [1..<length ?ps]"
    using n by (simp add: upt_conv_Cons)
  finally show ?thesis
    by (simp add: parentDomains_def Let_def join_split_on)
qed

lemma parentDomains_Cons_other:
  assumes "c \<noteq> CHR ''.''"
  shows "parentDomains (c # cs) = parentDomains cs"
proof -
  obtain p ps where s: "split_on CHR ''.'' cs = p # ps"
    by (cases "split_on CHR ''.'' cs") simp_all
  have "map (\<lambda>i. join ''.'' (drop i ((c # p) # ps))) [1..<Suc (length ps)] =
        map (\<lambda>i. join ''.'' (drop i (p # ps))) [1..<Suc (length ps)]"
    by (rule map_cong) (auto simp: drop_Cons split: nat.splits)
  with assms s show ?thesis
    by (simp add: parentDomains_def Let_def del: upt_Suc)
qed

lemma parentDomains_eq: "parentDomains s = suffixesAfterDots s"
proof (induction s)
  case Nil
  then show ?case by (simp add: parentDomains_def)
next
  case (Cons c cs)
  then show ?case
    by (simp add: parentDomains_Cons_dot parentDomains_Cons_other)
qed

lemma indexOf_from_end: "length s \<le> k \<Longrightarrow> indexOf_from s c k = -1"
  by (simp add: indexOf_from_def)

lemma indexOf_from_step:
  "k < length s \<Longrightarrow> indexOf_from s c k = (if s ! k = c then int k else indexOf_from s c (Suc k))"
  by (simp add: indexOf_from_def upt_conv_Cons)

lemma slice_from_drop: "k \<le> length s \<Longrightarrow> slice_from s (int k) = drop k s"
  by (simp add: slice_from_def slice_def Let_def min_def)

lemma subdomainLoop_eq:
  "k \<le> length s \<Longrightarrow>
   subdomainLoop member s (indexOf_from s CHR ''.'' k) = list_ex member (suffixesAfterDots (drop k s))"
proof (induction "length s - k" arbitrary: k)
  case 0
  then have "k = length s" by simp
  then show ?case
    by (subst subdomainLoop.simps) (simp add: indexOf_from_end)
next
  case (Suc n)
  then have k: "k < length s" and n: "n = length s - Suc k" and k': "Suc k \<le> length s" by simp_all
  have d: "drop k s = s ! k # drop (Suc k) s" using k by (rule Cons_nth_drop_Suc [symmetric])
  show ?case
  proof (cases "s ! k = CHR ''.''")
    case True
    have "subdomainLoop member s (int k) =
        (member (drop (Suc k) s) \<or> subdomainLoop member s (indexOf_from s CHR ''.'' (Suc k)))"
      using slice_from_drop [OF k', of] by (subst subdomainLoop.simps) (simp add: nat_add_distrib add.commute)
    with True Suc.hyps(1) [OF n k'] k d show ?thesis
      by (simp add: indexOf_from_step)
  next
    case False
    with Suc.hyps(1) [OF n k'] k d show ?thesis
      by (simp add: indexOf_from_step)
  qed
qed

lemma checkSubdomain_eq: "checkSubdomain member s = list_ex member (parentDomains s)"
  using subdomainLoop_eq [of 0 s member] by (simp add: checkSubdomain_def parentDomains_eq)

lemma outcome_checkWithHash:
  "outcome (checkWithHash dc domain) =
     (if enableSubdomainChecking dc
         \<and> list_ex (\<lambda>p. p \<in> disposableDomainsSet dc) (parentDomains domain)
      then (True, Subdomain, 85) else (False, Exact, 0))"
  by (simp add: checkWithHash_def checkSubdomain_eq outcome_def noMatch_def)

lemma outcome_hashFallback:
  "outcome (hashFallback dc domain) =
     (if enableSubdomainChecking dc \<and> indexingStrategy dc = Hash
         \<and> list_ex (\<lambda>p. p \<in> disposableDomainsSet dc) (parentDomains domain)
      then (True, Subdomain, 85) else (False, Exact, 0))"
  by (simp add: hashFallback_def outcome_def noMatch_def)

lemma outcome_trieMatch:
  "map_option outcome (trieMatch r l1) = map_option outcome (trieMatch r l2)"
  by (simp add: trieMatch_def outcome_def)

lemma outcome_noMatch: "outcome noMatch = (False, Exact, 0)"
  by (simp add: outcome_def noMatch_def)

lemma agree_prefix:
  assumes "bloomRejects dc domain \<or> domain \<in> disposableDomainsSet dc"
  shows "performDisposableCheck dc domain = DomainChecker_checkDisposableDomain dc domain"
  using assms by (auto simp: performDisposableCheck_def DomainChecker_checkDisposableDomain_def)

lemma agree_no_subdomains:
  assumes "\<not> enableSubdomainChecking dc"
  shows "map_option outcome (performDisposableCheck dc domain) =
         map_option outcome (DomainChecker_checkDisposableDomain dc domain)"
  using assms
  by (cases "indexingStrategy dc")
     (simp_all add: performDisposableCheck_def DomainChecker_checkDisposableDomain_def
        checkWithTrie_def checkWithBloom_def checkWithHybrid_def
        outcome_checkWithHash outcome_hashFallback outcome_noMatch)

lemma agree_hash:
  assumes "indexingStrategy dc = Hash"
  shows "map_option outcome (performDisposableCheck dc domain) =
         map_option outcome (DomainChecker_checkDisposableDomain dc domain)"
  using assms
  by (simp add: performDisposableCheck_def DomainChecker_checkDisposableDomain_def
      outcome_checkWithHash outcome_hashFallback)

lemma agree_trie:
  assumes "indexingStrategy dc = Trie"
  shows "map_option outcome (performDisposableCheck dc domain) =
         map_option outcome (DomainChecker_checkDisposableDomain dc domain)"
proof (cases "bloomRejects dc domain \<or> domain \<in> disposableDomainsSet dc")
  case True
  then show ?thesis by (simp add: agree_prefix)
next
  case False
  have h: "outcome (hashFallback dc domain) = (False, Exact, 0)"
    using assms by (simp add: outcome_hashFallback)
  show ?thesis
  proof (cases "if enableSubdomainChecking dc then domainTrie dc else None")
    case None
    with False assms h show ?thesis
      by (simp add: performDisposableCheck_def DomainChecker_checkDisposableDomain_def
          checkWithTrie_def outcome_noMatch)
  next
    case (Some search)
    show ?thesis
    proof (cases "search domain")
      case None
      with False assms Some show ?thesis
        by (simp add: performDisposableCheck_def DomainChecker_checkDisposableDomain_def
            checkWithTrie_def)
    next
      case (Some r)
      with False assms \<open>(if enableSubdomainChecking dc then domainTrie dc else None) = Some search\<close> h
      show ?thesis
        by (simp add: performDisposableCheck_def DomainChecker_checkDisposableDomain_def
            checkWithTrie_def trieMatch_def outcome_def noMatch_def)
    qed
  qed
qed

section \<open>Properties of the facade\<close>














section \<open>The claims\<close>

text \<open>
  Claim C1. A Bloom filter has no false negatives: once \<open>add(x)\<close> has been called,
  \<open>contains(x)\<close> is true, and it stays true after any further sequence of \<open>add\<close> calls.
  The statement covers both implementations. For the byte-array filter the fields are
  those the constructor sets (\<open>BloomFilter_inv\<close>); the boolean-array filter needs no
  assumption.
\<close>

theorem bloom_no_false_negatives:
  assumes "BloomFilter_inv bf"
  shows "BloomFilter_contains (foldl BloomFilter_add (BloomFilter_add bf x) ys) x
       \<and> BloomFilterBasic_contains (foldl BloomFilterBasic_add (BloomFilterBasic_add sbf x) ys) x"
proof
  from assms have "BloomFilter_contains (BloomFilter_add bf x) x"
    by (rule contains_after_add)
  then show "BloomFilter_contains (foldl BloomFilter_add (BloomFilter_add bf x) ys) x"
    by (rule contains_adds_mono)
next
  have "BloomFilterBasic_contains (BloomFilterBasic_add sbf x) x"
    by (rule basic_contains_after_add)
  then show "BloomFilterBasic_contains (foldl BloomFilterBasic_add (BloomFilterBasic_add sbf x) ys) x"
    by (rule basic_contains_adds_mono)
qed

theorem bloom_no_false_negatives_witness:
  "BloomFilter_inv (BloomFilter_new 10 (Some 7))
   \<and> BloomFilter_contains
       (foldl BloomFilter_add (BloomFilter_add (BloomFilter_new 10 (Some 7)) ''mailinator.com'')
          [''example.org'', ''temp-mail.io''])
       ''mailinator.com''
   \<and> BloomFilterBasic_contains
       (foldl BloomFilterBasic_add (BloomFilterBasic_add (BloomFilterBasic_new 10 (Some 7)) ''mailinator.com'')
          [''example.org'', ''temp-mail.io''])
       ''mailinator.com''"
proof -
  have inv: "BloomFilter_inv (BloomFilter_new 10 (Some 7))"
    by (simp add: BloomFilter_inv_def BloomFilter_new_def loopCount_def)
  from bloom_no_false_negatives [OF inv, of "''mailinator.com''" "[''example.org'', ''temp-mail.io'']"
      "BloomFilterBasic_new 10 (Some 7)"] inv
  show ?thesis by simp
qed

text \<open>
  Claim C2. On an empty trie, after \<open>insert("mailinator.com", "disposable")\<close>, the search
  for \<open>mailinator.com\<close> is an exact match with confidence 100, the search for
  \<open>x.mailinator.com\<close> is a subdomain match with confidence 85, and the search for
  \<open>notmailinator.com\<close> finds nothing, with confidence 0. Both implementations of the
  index are evaluated.
\<close>

theorem trie_exact_vs_subdomain:
  "TrieIndex_insert newTrieNode ''mailinator.com'' ''disposable'' =
     Some (TrieNode [(''com'', TrieNode [(''mailinator'', TrieNode [] True ''disposable'')] False '''')] False '''')
   \<and> TrieIndex_search
        (TrieNode [(''com'', TrieNode [(''mailinator'', TrieNode [] True ''disposable'')] False '''')] False '''')
        ''mailinator.com''
       = Some \<lparr>found = True, matchType = Exact, confidence = 100, source_r = ''disposable''\<rparr>
   \<and> TrieIndex_search
        (TrieNode [(''com'', TrieNode [(''mailinator'', TrieNode [] True ''disposable'')] False '''')] False '''')
        ''x.mailinator.com''
       = Some \<lparr>found = True, matchType = Subdomain, confidence = 85, source_r = ''disposable''\<rparr>
   \<and> TrieIndex_search
        (TrieNode [(''com'', TrieNode [(''mailinator'', TrieNode [] True ''disposable'')] False '''')] False '''')
        ''notmailinator.com''
       = Some \<lparr>found = False, matchType = Exact, confidence = 0, source_r = ''''\<rparr>
   \<and> TrieIndexBasic_insert newTrieNode ''mailinator.com'' ''disposable'' =
     TrieNode [(''com'', TrieNode [(''mailinator'', TrieNode [] True ''disposable'')] False '''')] False ''''
   \<and> TrieIndexBasic_search
        (TrieNode [(''com'', TrieNode [(''mailinator'', TrieNode [] True ''disposable'')] False '''')] False '''')
        ''mailinator.com''
       = \<lparr>found = True, matchType = Exact, confidence = 100, source_r = ''disposable''\<rparr>
   \<and> TrieIndexBasic_search
        (TrieNode [(''com'', TrieNode [(''mailinator'', TrieNode [] True ''disposable'')] False '''')] False '''')
        ''x.mailinator.com''
       = \<lparr>found = True, matchType = Subdomain, confidence = 85, source_r = ''disposable''\<rparr>
   \<and> TrieIndexBasic_search
        (TrieNode [(''com'', TrieNode [(''mailinator'', TrieNode [] True ''disposable'')] False '''')] False '''')
        ''notmailinator.com''
       = \<lparr>found = False, matchType = Exact, confidence = 0, source_r = ''''\<rparr>"
  by code_simp

text \<open>
  Claim C3, as stated: a member of the raw disposable set is reported as an exact match
  with confidence 100 and source "database" under every configuration. Both checkers ask
  the Bloom filter first, so a configured filter that does not hold the domain (here a
  filter to which nothing was added) turns the member into a non-match.
\<close>

theorem exact_hit_counterexample:
  "DomainChecker_checkDisposableDomain
     \<lparr>disposableDomainsSet = {''a.com''}, allowlistSet = {}, blacklistSet = {},
      trustedDomains = [], enableSubdomainChecking = True, domainTrie = None,
      bloomFilter = Some (BloomFilter_contains (BloomFilter_new 10 (Some 7))),
      indexingStrategy = Hybrid, domainCache = []\<rparr> ''a.com''
   = Some \<lparr>isMatch = False, matchType_d = Exact, confidence_d = 0, source_d = None\<rparr>
   \<and> performDisposableCheck
     \<lparr>disposableDomainsSet = {''a.com''}, allowlistSet = {}, blacklistSet = {},
      trustedDomains = [], enableSubdomainChecking = True, domainTrie = None,
      bloomFilter = Some (BloomFilter_contains (BloomFilter_new 10 (Some 7))),
      indexingStrategy = Hybrid, domainCache = []\<rparr> ''a.com''
   = Some \<lparr>isMatch = False, matchType_d = Exact, confidence_d = 0, source_d = None\<rparr>"
proof -
  have "\<not> BloomFilter_contains (BloomFilter_new 10 (Some 7)) ''a.com''"
    by code_simp
  then show ?thesis
    by (simp add: DomainChecker_checkDisposableDomain_def performDisposableCheck_def
        bloomRejects_def noMatch_def)
qed

text \<open>
  Claim C3, amended: for every strategy, with or without a trie, with subdomain checking
  on or off, a member of the raw disposable set is reported as an exact match with
  confidence 100 and source "database" whenever no Bloom filter is configured or the
  configured filter answers \<open>contains(domain)\<close> with true, as a filter does for every
  item added to it. For the checker with a result cache this is the check of a domain that
  is not in that cache.
\<close>

theorem exact_disposable_hit_wins:
  assumes "domain \<in> disposableDomainsSet dc"
    and "\<forall>contains. bloomFilter dc = Some contains \<longrightarrow> contains domain"
  shows "DomainChecker_checkDisposableDomain dc domain =
           Some \<lparr>isMatch = True, matchType_d = Exact, confidence_d = 100, source_d = Some ''database''\<rparr>
       \<and> performDisposableCheck dc domain =
           Some \<lparr>isMatch = True, matchType_d = Exact, confidence_d = 100, source_d = Some ''database''\<rparr>
       \<and> (map_of (domainCache dc) domain = None \<longrightarrow>
            map_option fst (CachedDomainChecker_checkDisposableDomain dc domain) =
              Some \<lparr>isMatch = True, matchType_d = Exact, confidence_d = 100, source_d = Some ''database''\<rparr>)"
proof -
  from assms(2) have "\<not> bloomRejects dc domain"
    by (simp add: bloomRejects_def split: option.split)
  with assms(1) show ?thesis
    by (simp add: DomainChecker_checkDisposableDomain_def performDisposableCheck_def
        CachedDomainChecker_checkDisposableDomain_def Let_def)
qed

theorem exact_disposable_hit_wins_witness:
  "''a.com'' \<in> disposableDomainsSet
     \<lparr>disposableDomainsSet = {''a.com''}, allowlistSet = {}, blacklistSet = {},
      trustedDomains = [], enableSubdomainChecking = True, domainTrie = None,
      bloomFilter = Some (BloomFilter_contains (BloomFilter_add (BloomFilter_new 10 (Some 7)) ''a.com'')),
      indexingStrategy = Hybrid, domainCache = []\<rparr>
   \<and> BloomFilter_contains (BloomFilter_add (BloomFilter_new 10 (Some 7)) ''a.com'') ''a.com''
   \<and> DomainChecker_checkDisposableDomain
     \<lparr>disposableDomainsSet = {''a.com''}, allowlistSet = {}, blacklistSet = {},
      trustedDomains = [], enableSubdomainChecking = True, domainTrie = None,
      bloomFilter = Some (BloomFilter_contains (BloomFilter_add (BloomFilter_new 10 (Some 7)) ''a.com'')),
      indexingStrategy = Hybrid, domainCache = []\<rparr> ''a.com''
     = Some \<lparr>isMatch = True, matchType_d = Exact, confidence_d = 100, source_d = Some ''database''\<rparr>
   \<and> performDisposableCheck
     \<lparr>disposableDomainsSet = {''a.com''}, allowlistSet = {}, blacklistSet = {},
      trustedDomains = [], enableSubdomainChecking = True, domainTrie = None,
      bloomFilter = Some (BloomFilter_contains (BloomFilter_add (BloomFilter_new 10 (Some 7)) ''a.com'')),
      indexingStrategy = Hybrid, domainCache = []\<rparr> ''a.com''
     = Some \<lparr>isMatch = True, matchType_d = Exact, confidence_d = 100, source_d = Some ''database''\<rparr>
   \<and> map_option fst (CachedDomainChecker_checkDisposableDomain
     \<lparr>disposableDomainsSet = {''a.com''}, allowlistSet = {}, blacklistSet = {},
      trustedDomains = [], enableSubdomainChecking = True, domainTrie = None,
      bloomFilter = Some (BloomFilter_contains (BloomFilter_add (BloomFilter_new 10 (Some 7)) ''a.com'')),
      indexingStrategy = Hybrid, domainCache = []\<rparr> ''a.com'')
     = Some \<lparr>isMatch = True, matchType_d = Exact, confidence_d = 100, source_d = Some ''database''\<rparr>"
proof -
  let ?bf = "BloomFilter_add (BloomFilter_new 10 (Some 7)) ''a.com''"
  let ?dc = "\<lparr>disposableDomainsSet = {''a.com''}, allowlistSet = {}, blacklistSet = {},
      trustedDomains = [], enableSubdomainChecking = True, domainTrie = None,
      bloomFilter = Some (BloomFilter_contains ?bf),
      indexingStrategy = Hybrid, domainCache = []\<rparr>"
  have c: "BloomFilter_contains ?bf ''a.com''"
    by (rule contains_after_add) (simp add: BloomFilter_inv_new loopCount_def)
  have m: "''a.com'' \<in> disposableDomainsSet ?dc" by simp
  from c have b: "\<forall>contains. bloomFilter ?dc = Some contains \<longrightarrow> contains ''a.com''" by simp
  from exact_disposable_hit_wins [OF m b] c show ?thesis by simp
qed





text \<open>
  Claim C6. A cache built with \<open>maxSize\<close> 2 that receives \<open>set\<close> for the keys
  \<open>a\<close>, \<open>b\<close>, \<open>c\<close> in that order, with no read in between, has evicted \<open>a\<close>:
  \<open>has("a")\<close> is false, \<open>has("b")\<close> and \<open>has("c")\<close> are true, whatever the results,
  the TTLs and the clock readings are.
\<close>

theorem lru_eviction_at_capacity:
  "\<not> MemoryCache_has
        (MemoryCache_set (MemoryCache_set (MemoryCache_set (MemoryCache_new (Some 2) dttl)
           ''a'' r1 ttl1 now1) ''b'' r2 ttl2 now2) ''c'' r3 ttl3 now3) ''a''
   \<and> MemoryCache_has
        (MemoryCache_set (MemoryCache_set (MemoryCache_set (MemoryCache_new (Some 2) dttl)
           ''a'' r1 ttl1 now1) ''b'' r2 ttl2 now2) ''c'' r3 ttl3 now3) ''b''
   \<and> MemoryCache_has
        (MemoryCache_set (MemoryCache_set (MemoryCache_set (MemoryCache_new (Some 2) dttl)
           ''a'' r1 ttl1 now1) ''b'' r2 ttl2 now2) ''c'' r3 ttl3 now3) ''c''"
  by (simp add: MemoryCache_has_def MemoryCache_set_def MemoryCache_new_def or_default_def
      Map_delete_def Let_def)

text \<open>
  Claim C8. Inserting the same domain twice, with sources \<open>s1\<close> and then \<open>s2\<close>, leaves
  exactly one terminal node on the path of the domain, its source is \<open>s2\<close>, and the node
  count that \<open>getStats\<close> reports is the same after the second insert as after the first.
  Both inserts return. The domain is any string that does not start with a dot, which
  includes every well-formed domain; the trie is any trie whose nodes have distinct keys.
\<close>

theorem trie_insert_idempotent:
  assumes "trie_inv t" and "d = [] \<or> hd d \<noteq> CHR ''.''"
  shows "\<exists>parts t1 t2.
           splitDomainReverse d (lastIndexOf d CHR ''.'') = Some parts
         \<and> TrieIndex_insert t d s1 = Some t1
         \<and> TrieIndex_insert t1 d s2 = Some t2
         \<and> filter (\<lambda>ps. fst ps = parts) (terminals t2) = [(parts, s2)]
         \<and> TrieIndex_search t2 d =
             Some \<lparr>found = True, matchType = Exact, confidence = 100, source_r = s2\<rparr>
         \<and> nodeCount_s (TrieIndex_getStats t2) = nodeCount_s (TrieIndex_getStats t1)"
proof -
  from splitDomainReverse_returns [OF assms(2)] obtain parts where
    parts: "splitDomainReverse d (lastIndexOf d CHR ''.'') = Some parts" by blast
  then have ne: "parts \<noteq> []" by (rule splitDomainReverse_nonempty)
  define t1 where "t1 = insert_walk parts s1 t"
  define t2 where "t2 = insert_walk parts s2 t1"
  have t2: "t2 = insert_walk parts s2 t"
    by (simp add: t2_def t1_def insert_walk_twice)
  have "TrieIndex_insert t d s1 = Some t1" "TrieIndex_insert t1 d s2 = Some t2"
    by (simp_all add: TrieIndex_insert_def parts t1_def t2_def)
  moreover have "filter (\<lambda>ps. fst ps = parts) (terminals t2) = [(parts, s2)]"
    unfolding t2 using assms(1) by (rule terminals_insert_walk)
  moreover have "TrieIndex_search t2 d =
      Some \<lparr>found = True, matchType = Exact, confidence = 100, source_r = s2\<rparr>"
    by (simp add: TrieIndex_search_def parts t2 search_parts_insert_walk [OF ne])
  moreover have "nodeCount_s (TrieIndex_getStats t2) = nodeCount_s (TrieIndex_getStats t1)"
    by (simp add: TrieIndex_getStats_def t2 t1_def nodeCount_insert_walk_source [of parts s2 t s1])
  ultimately show ?thesis using parts by blast
qed

theorem trie_insert_idempotent_witness:
  "trie_inv (TrieNode [(''com'', TrieNode [(''example'', TrieNode [] True ''blacklisted'')] False [])] False [])
   \<and> (''mailinator.com'' = [] \<or> hd ''mailinator.com'' \<noteq> CHR ''.'')
   \<and> (\<exists>parts t1 t2.
           splitDomainReverse ''mailinator.com'' (lastIndexOf ''mailinator.com'' CHR ''.'') = Some parts
         \<and> TrieIndex_insert
               (TrieNode [(''com'', TrieNode [(''example'', TrieNode [] True ''blacklisted'')] False [])] False [])
               ''mailinator.com'' ''disposable'' = Some t1
         \<and> TrieIndex_insert t1 ''mailinator.com'' ''allowed'' = Some t2
         \<and> filter (\<lambda>ps. fst ps = parts) (terminals t2) = [(parts, ''allowed'')]
         \<and> TrieIndex_search t2 ''mailinator.com'' =
             Some \<lparr>found = True, matchType = Exact, confidence = 100, source_r = ''allowed''\<rparr>
         \<and> nodeCount_s (TrieIndex_getStats t2) = nodeCount_s (TrieIndex_getStats t1))"
proof -
  have a: "trie_inv (TrieNode [(''com'', TrieNode [(''example'', TrieNode [] True ''blacklisted'')] False [])] False [])"
    by simp
  have b: "''mailinator.com'' = [] \<or> hd ''mailinator.com'' \<noteq> CHR ''.''" by simp
  from trie_insert_idempotent [OF a b, of "''disposable''" "''allowed''"] a b
  show ?thesis by blast
qed



text \<open>
  Claim C10, as stated: the two domain checkers report the same match, match type and
  confidence under the same configuration. With the hybrid strategy, subdomain checking on
  and no trie, the checker with a result cache falls back to the walk over the parent
  domains and finds \<open>mailinator.com\<close> above \<open>x.mailinator.com\<close>; the other checker
  walks only under the hash strategy and reports no match. The same happens under the
  bloom strategy with a Bloom filter that holds both names.
\<close>

theorem checkers_differ_counterexample:
  "performDisposableCheck
     \<lparr>disposableDomainsSet = {''mailinator.com''}, allowlistSet = {}, blacklistSet = {},
      trustedDomains = [], enableSubdomainChecking = True, domainTrie = None, bloomFilter = None,
      indexingStrategy = Hybrid, domainCache = []\<rparr> ''x.mailinator.com''
   = Some \<lparr>isMatch = True, matchType_d = Subdomain, confidence_d = 85, source_d = Some ''hash''\<rparr>
   \<and> DomainChecker_checkDisposableDomain
     \<lparr>disposableDomainsSet = {''mailinator.com''}, allowlistSet = {}, blacklistSet = {},
      trustedDomains = [], enableSubdomainChecking = True, domainTrie = None, bloomFilter = None,
      indexingStrategy = Hybrid, domainCache = []\<rparr> ''x.mailinator.com''
   = Some \<lparr>isMatch = False, matchType_d = Exact, confidence_d = 0, source_d = None\<rparr>
   \<and> performDisposableCheck
     \<lparr>disposableDomainsSet = {''a.com''}, allowlistSet = {}, blacklistSet = {''x.a.com''},
      trustedDomains = [], enableSubdomainChecking = True, domainTrie = None,
      bloomFilter = Some (BloomFilter_contains
        (foldl BloomFilter_add (BloomFilter_new 20 (Some 7)) [''a.com'', ''x.a.com''])),
      indexingStrategy = Bloom, domainCache = []\<rparr> ''x.a.com''
   = Some \<lparr>isMatch = True, matchType_d = Subdomain, confidence_d = 85, source_d = Some ''hash''\<rparr>
   \<and> DomainChecker_checkDisposableDomain
     \<lparr>disposableDomainsSet = {''a.com''}, allowlistSet = {}, blacklistSet = {''x.a.com''},
      trustedDomains = [], enableSubdomainChecking = True, domainTrie = None,
      bloomFilter = Some (BloomFilter_contains
        (foldl BloomFilter_add (BloomFilter_new 20 (Some 7)) [''a.com'', ''x.a.com''])),
      indexingStrategy = Bloom, domainCache = []\<rparr> ''x.a.com''
   = Some \<lparr>isMatch = False, matchType_d = Exact, confidence_d = 0, source_d = None\<rparr>
   \<and> map_option outcome (performDisposableCheck
     \<lparr>disposableDomainsSet = {''mailinator.com''}, allowlistSet = {}, blacklistSet = {},
      trustedDomains = [], enableSubdomainChecking = True, domainTrie = None, bloomFilter = None,
      indexingStrategy = Hybrid, domainCache = []\<rparr> ''x.mailinator.com'')
   \<noteq> map_option outcome (DomainChecker_checkDisposableDomain
     \<lparr>disposableDomainsSet = {''mailinator.com''}, allowlistSet = {}, blacklistSet = {},
      trustedDomains = [], enableSubdomainChecking = True, domainTrie = None, bloomFilter = None,
      indexingStrategy = Hybrid, domainCache = []\<rparr> ''x.mailinator.com'')"
proof -
  have "BloomFilter_contains
      (foldl BloomFilter_add (BloomFilter_new 20 (Some 7)) [''a.com'', ''x.a.com'']) ''x.a.com''"
    by (rule contains_every_added) (simp_all add: BloomFilter_inv_new loopCount_def)
  then show ?thesis
    by (simp add: performDisposableCheck_def DomainChecker_checkDisposableDomain_def
        bloomRejects_def checkWithHybrid_def checkWithBloom_def checkWithHash_def
        checkSubdomain_eq parentDomains_eq hashFallback_def noMatch_def outcome_def)
qed

text \<open>
  Claim C10, amended: under the same configuration the two checkers report the same
  match, match type and confidence (and both return or neither does) when the strategy is
  hash or trie, when subdomain checking is off, when the Bloom filter rejects the domain,
  or when the domain is a member of the raw disposable set. For the checker with a result
  cache this is the check of a domain that is not in that cache.
\<close>

theorem checkers_agree:
  assumes "indexingStrategy dc = Hash \<or> indexingStrategy dc = Trie
         \<or> \<not> enableSubdomainChecking dc
         \<or> bloomRejects dc domain
         \<or> domain \<in> disposableDomainsSet dc"
  shows "map_option outcome (performDisposableCheck dc domain) =
           map_option outcome (DomainChecker_checkDisposableDomain dc domain)
       \<and> (map_of (domainCache dc) domain = None \<longrightarrow>
            map_option (\<lambda>rc. outcome (fst rc)) (CachedDomainChecker_checkDisposableDomain dc domain) =
              map_option outcome (DomainChecker_checkDisposableDomain dc domain))"
proof -
  have a: "map_option outcome (performDisposableCheck dc domain) =
           map_option outcome (DomainChecker_checkDisposableDomain dc domain)"
    using assms agree_hash agree_trie agree_no_subdomains agree_prefix by metis
  have "map_option (\<lambda>rc. outcome (fst rc)) (CachedDomainChecker_checkDisposableDomain dc domain) =
        map_option outcome (performDisposableCheck dc domain)"
    if "map_of (domainCache dc) domain = None"
    using that
    by (cases "performDisposableCheck dc domain")
       (simp_all add: CachedDomainChecker_checkDisposableDomain_def Let_def)
  with a show ?thesis by simp
qed

theorem checkers_agree_witness:
  "indexingStrategy
     \<lparr>disposableDomainsSet = {''mailinator.com''}, allowlistSet = {}, blacklistSet = {},
      trustedDomains = [], enableSubdomainChecking = True, domainTrie = None, bloomFilter = None,
      indexingStrategy = Hash, domainCache = []\<rparr> = Hash
   \<and> map_option outcome (performDisposableCheck
        \<lparr>disposableDomainsSet = {''mailinator.com''}, allowlistSet = {}, blacklistSet = {},
         trustedDomains = [], enableSubdomainChecking = True, domainTrie = None, bloomFilter = None,
         indexingStrategy = Hash, domainCache = []\<rparr> ''x.mailinator.com'')
       = Some (True, Subdomain, 85)
   \<and> map_option (\<lambda>rc. outcome (fst rc)) (CachedDomainChecker_checkDisposableDomain
        \<lparr>disposableDomainsSet = {''mailinator.com''}, allowlistSet = {}, blacklistSet = {},
         trustedDomains = [], enableSubdomainChecking = True, domainTrie = None, bloomFilter = None,
         indexingStrategy = Hash, domainCache = []\<rparr> ''x.mailinator.com'')
       = Some (True, Subdomain, 85)
   \<and> map_option outcome (DomainChecker_checkDisposableDomain
        \<lparr>disposableDomainsSet = {''mailinator.com''}, allowlistSet = {}, blacklistSet = {},
         trustedDomains = [], enableSubdomainChecking = True, domainTrie = None, bloomFilter = None,
         indexingStrategy = Hash, domainCache = []\<rparr> ''x.mailinator.com'')
       = Some (True, Subdomain, 85)"
proof -
  let ?dc = "\<lparr>disposableDomainsSet = {''mailinator.com''}, allowlistSet = {}, blacklistSet = {},
      trustedDomains = [], enableSubdomainChecking = True, domainTrie = None, bloomFilter = None,
      indexingStrategy = Hash, domainCache = []\<rparr>"
  have s: "indexingStrategy ?dc = Hash" by simp
  then have h: "indexingStrategy ?dc = Hash \<or> indexingStrategy ?dc = Trie
         \<or> \<not> enableSubdomainChecking ?dc
         \<or> bloomRejects ?dc ''x.mailinator.com''
         \<or> ''x.mailinator.com'' \<in> disposableDomainsSet ?dc" by (rule disjI1)
  have u: "map_of (domainCache ?dc) ''x.mailinator.com'' = None" by simp
  have "map_option outcome (DomainChecker_checkDisposableDomain ?dc ''x.mailinator.com'')
      = Some (True, Subdomain, 85)"
    by (simp add: DomainChecker_checkDisposableDomain_def bloomRejects_def hashFallback_def
        parentDomains_eq outcome_def)
  with checkers_agree [OF h] s u show ?thesis by simp
qed

end
